theory Spec2Isabelle
  imports Main
begin

section \<open>The keyed manager \<open>_base_mgr\<close> of \<open>tpl_orm.hpp\<close>\<close>

text \<open>
  \<open>val_pt\<close> is \<open>std::shared_ptr<val_t>\<close>: either \<open>nullptr\<close> or the address of a
  \<open>val_t\<close> object. Addresses are natural numbers.
\<close>

datatype val_pt = nullptr | ptr nat

text \<open>
  \<open>data_t\<close> is \<open>std::map<key_t, val_pt>\<close>: at most one entry for each key. The
  manager object has the two members \<open>m_mtx\<close> and \<open>m_data\<close>. Every method takes
  \<open>m_mtx\<close> with a \<open>lock_guard\<close> on entry and gives it back when it returns, so a
  call that runs alone sees and leaves the mutex free; the sequential model keeps
  \<open>m_data\<close> only.
\<close>

record 'k base_mgr =
  m_data :: "'k \<rightharpoonup> val_pt"

text \<open>
  \<open>m_data.insert(std::make_pair(k, v))\<close>: \<open>std::map::insert\<close> adds the pair when
  the map has no entry for the key and leaves the map as it is otherwise.
\<close>

definition insert_pair :: "'k \<Rightarrow> val_pt \<Rightarrow> ('k \<rightharpoonup> val_pt) \<Rightarrow> ('k \<rightharpoonup> val_pt)" where
  "insert_pair k v m = (if m k = None then m(k \<mapsto> v) else m)"

text \<open>
  \<^verbatim>\<open>
  bool add (const key_t& k, val_pt v) {
      std::lock_guard<std::recursive_mutex> l(m_mtx);
      auto it = m_data.find(k);
      if (it != m_data.end())
          return false;
      m_data.insert(std::make_pair(k, v));
      return true;
  }
  \<close>
  The result is the returned \<open>bool\<close> and the manager after the call.
\<close>

definition add :: "'k \<Rightarrow> val_pt \<Rightarrow> 'k base_mgr \<Rightarrow> bool \<times> 'k base_mgr" where
  "add k v s =
     (if m_data s k \<noteq> None then (False, s)
      else (True, s\<lparr>m_data := insert_pair k v (m_data s)\<rparr>))"

text \<open>
  \<^verbatim>\<open>
  val_pt get (const key_t& k) {
      std::lock_guard<std::recursive_mutex> l(m_mtx);
      auto it = m_data.find(k);
      if (it == m_data.end())
          return nullptr;
      return it->second;
  }
  \<close>
  \<open>get\<close> does not change the manager.
\<close>

definition get :: "'k \<Rightarrow> 'k base_mgr \<Rightarrow> val_pt" where
  "get k s = (case m_data s k of None \<Rightarrow> nullptr | Some v \<Rightarrow> v)"

text \<open>
  \<^verbatim>\<open>
  void del (const key_t& k) {
      std::lock_guard<std::recursive_mutex> l(m_mtx);
      m_data.erase(k);
  }
  \<close>
  \<open>std::map::erase\<close> by key removes the entry when there is one and does nothing
  otherwise; it has no failure result, and \<open>del\<close> returns \<open>void\<close>.
\<close>

definition del :: "'k \<Rightarrow> 'k base_mgr \<Rightarrow> 'k base_mgr" where
  "del k s = s\<lparr>m_data := (m_data s)(k := None)\<rparr>"

text \<open>The manager built by the constructor \<open>_base_mgr<val_t>()\<close>: an empty map.\<close>

definition new_base_mgr :: "'k base_mgr" where
  "new_base_mgr = \<lparr>m_data = Map.empty\<rparr>"

section \<open>Objects made by \<open>new\<close>: managers and entities\<close>

text \<open>
  The entity class of the source's own test:
  \<^verbatim>\<open>
  class base_test : public _base_assigned_safe<base_test, identifier> {
      int m_val {0};
      ...
  };
  \<close>
  Its default constructor sets \<open>m_val\<close> to \<open>0\<close>.
\<close>

record base_test =
  m_val :: int

definition base_test_ctor :: base_test where
  "base_test_ctor = \<lparr>m_val = 0\<rparr>"

text \<open>
  The virtual members that \<open>_bai\<close> declares for an entity class, all of them pure
  (\<open>= 0\<close>): the three key accessors, the two serialisers, the two index operations
  and the six database and cache operations.
\<close>

datatype hook =
    Key | Db_key | Cache_key
  | Db_serialize | Io_serialize
  | Add_index | Del_index
  | Db_update | Db_insert | Db_delete
  | Cache_update | Cache_insert | Cache_remove

text \<open>
  The state of the process as far as the source can see it: the \<open>_base_mgr\<close> objects
  and the \<open>val_t\<close> objects that \<open>new\<close> has made so far, each at the address that is
  its position in the list, and the calls of \<open>_bai\<close> members made so far, each with
  the address of the entity it was called on. Objects are never freed in the model:
  a \<open>shared_ptr\<close> frees its object only when the last handle is gone, and then no
  handle is left to tell the address from a new one.
\<close>

record ('k, 'v) process =
  mgr_objs :: "'k base_mgr list"
  val_objs :: "'v list"
  hook_calls :: "(nat \<times> hook) list"

definition process0 :: "('k, 'v) process" where
  "process0 = \<lparr>mgr_objs = [], val_objs = [], hook_calls = []\<rparr>"

text \<open>
  \<^verbatim>\<open>
  static instance_t instance () {
      instance_t ret(new _base_mgr<val_t>());
      return ret;
  }
  \<close>
  \<open>instance_t\<close> is \<open>std::shared_ptr<_base_mgr<val_t>>\<close>; the handle returned is the
  address of the new manager. The static member \<open>m_instance\<close> is declared in the
  class and is neither read nor written by any function of the source.
\<close>

definition mgr_instance :: "('k, 'v) process \<Rightarrow> nat \<times> ('k, 'v) process" where
  "mgr_instance p =
     (length (mgr_objs p), p\<lparr>mgr_objs := mgr_objs p @ [new_base_mgr]\<rparr>)"

text \<open>
  A method call through a manager handle, \<open>h->add(k, v)\<close>, \<open>h->get(k)\<close> and
  \<open>h->del(k)\<close>: the method runs on the object at that address and the object is
  replaced by the one the method leaves. A handle that is not the address of a manager
  gives \<open>None\<close>.
\<close>

definition mgr_add ::
  "nat \<Rightarrow> 'k \<Rightarrow> val_pt \<Rightarrow> ('k, 'v) process \<Rightarrow> (bool \<times> ('k, 'v) process) option" where
  "mgr_add h k v p =
     (if h < length (mgr_objs p)
      then Some (fst (add k v (mgr_objs p ! h)),
                 p\<lparr>mgr_objs := (mgr_objs p)[h := snd (add k v (mgr_objs p ! h))]\<rparr>)
      else None)"

definition mgr_get :: "nat \<Rightarrow> 'k \<Rightarrow> ('k, 'v) process \<Rightarrow> val_pt option" where
  "mgr_get h k p =
     (if h < length (mgr_objs p) then Some (get k (mgr_objs p ! h)) else None)"

definition mgr_del :: "nat \<Rightarrow> 'k \<Rightarrow> ('k, 'v) process \<Rightarrow> ('k, 'v) process option" where
  "mgr_del h k p =
     (if h < length (mgr_objs p)
      then Some (p\<lparr>mgr_objs := (mgr_objs p)[h := del k (mgr_objs p ! h)]\<rparr>)
      else None)"

text \<open>
  \<^verbatim>\<open>
  static std::shared_ptr<val_t> new_instance () noexcept {
      std::shared_ptr<val_t> ret(new val_t);
      return ret;
  }
  \<close>
  \<open>_base<val_t>\<close> and \<open>_base_assigned<val_t, _flag>\<close> both have this member, with
  the same body. \<open>new val_t\<close> runs the default constructor of \<open>val_t\<close>; the class
  \<open>val_t\<close> is a template parameter, so the object its default constructor builds is
  the parameter \<open>ctor\<close> here.
\<close>

definition new_instance :: "'v \<Rightarrow> ('k, 'v) process \<Rightarrow> val_pt \<times> ('k, 'v) process" where
  "new_instance ctor p =
     (ptr (length (val_objs p)), p\<lparr>val_objs := val_objs p @ [ctor]\<rparr>)"

definition assigned_new_instance ::
  "'v \<Rightarrow> ('k, 'v) process \<Rightarrow> val_pt \<times> ('k, 'v) process" where
  "assigned_new_instance ctor p =
     (ptr (length (val_objs p)), p\<lparr>val_objs := val_objs p @ [ctor]\<rparr>)"

text \<open>Reading the entity behind a handle: \<open>None\<close> for \<open>nullptr\<close> and for a dangling address.\<close>

fun deref :: "('k, 'v) process \<Rightarrow> val_pt \<Rightarrow> 'v option" where
  "deref p nullptr = None"
| "deref p (ptr a) = (if a < length (val_objs p) then Some (val_objs p ! a) else None)"

text \<open>The handles that refer to an entity of the process.\<close>

definition live :: "('k, 'v) process \<Rightarrow> val_pt set" where
  "live p = {v. deref p v \<noteq> None}"

section \<open>Threads calling \<open>add\<close> on one manager\<close>

text \<open>
  Several threads call \<open>add\<close> on the same \<open>_base_mgr\<close> object. A call is at one of
  the statements of the body of \<open>add\<close>:
  \<^item> \<open>At_lock\<close>: before \<open>std::lock_guard<std::recursive_mutex> l(m_mtx)\<close>;
  \<^item> \<open>At_find\<close>: before \<open>auto it = m_data.find(k)\<close>;
  \<^item> \<open>At_test found\<close>: before \<open>if (it != m_data.end())\<close>, where \<open>found\<close> says
    whether \<open>it\<close> is an entry;
  \<^item> \<open>At_insert\<close>: before \<open>m_data.insert(std::make_pair(k, v))\<close>;
  \<^item> \<open>At_return\<close>: before \<open>return true\<close>;
  \<^item> \<open>Returned b\<close>: the call has returned \<open>b\<close>.
\<close>

datatype add_pc = At_lock | At_find | At_test bool | At_insert | At_return | Returned bool

record 'k add_call =
  arg_k :: 'k
  arg_v :: val_pt
  pc :: add_pc

text \<open>
  A \<open>std::recursive_mutex\<close> is free (\<open>None\<close>) or owned by a thread that has locked
  it a number of times. \<open>lock\<close> by the owner counts once more, \<open>lock\<close> by another
  thread waits (\<open>None\<close>: no step), and \<open>unlock\<close> by the owner counts down and
  frees the mutex at the last level.
\<close>

type_synonym recursive_mutex = "(nat \<times> nat) option"

fun mtx_lock :: "nat \<Rightarrow> recursive_mutex \<Rightarrow> recursive_mutex option" where
  "mtx_lock t None = Some (Some (t, 1))"
| "mtx_lock t (Some (own, n)) = (if own = t then Some (Some (own, Suc n)) else None)"

fun mtx_unlock :: "nat \<Rightarrow> recursive_mutex \<Rightarrow> recursive_mutex" where
  "mtx_unlock t None = None"
| "mtx_unlock t (Some (own, n)) =
     (if own = t then (if n \<le> 1 then None else Some (own, n - 1)) else Some (own, n))"

text \<open>
  The manager with both members, \<open>m_data\<close> and \<open>m_mtx\<close>, and the calls of \<open>add\<close>
  in progress on it; thread \<open>t\<close> runs the call at position \<open>t\<close>.
\<close>

record 'k shared_mgr = "'k base_mgr" +
  m_mtx :: recursive_mutex
  calls :: "'k add_call list"

text \<open>
  One statement of thread \<open>t\<close>. The result is \<open>None\<close> when the thread cannot move:
  it waits for the mutex, it has returned, or there is no such thread. Leaving \<open>add\<close>
  by either \<open>return\<close> destroys the \<open>lock_guard\<close>, which unlocks \<open>m_mtx\<close>.
\<close>

definition thread_step :: "nat \<Rightarrow> 'k shared_mgr \<Rightarrow> 'k shared_mgr option" where
  "thread_step t c =
     (if t < length (calls c) then
        (let th = calls c ! t in
         case pc th of
           At_lock \<Rightarrow>
             (case mtx_lock t (m_mtx c) of
                None \<Rightarrow> None
              | Some mx \<Rightarrow>
                  Some (c\<lparr>m_mtx := mx, calls := (calls c)[t := th\<lparr>pc := At_find\<rparr>]\<rparr>))
         | At_find \<Rightarrow>
             Some (c\<lparr>calls :=
                      (calls c)[t := th\<lparr>pc := At_test (m_data c (arg_k th) \<noteq> None)\<rparr>]\<rparr>)
         | At_test found \<Rightarrow>
             (if found
              then Some (c\<lparr>m_mtx := mtx_unlock t (m_mtx c),
                           calls := (calls c)[t := th\<lparr>pc := Returned False\<rparr>]\<rparr>)
              else Some (c\<lparr>calls := (calls c)[t := th\<lparr>pc := At_insert\<rparr>]\<rparr>))
         | At_insert \<Rightarrow>
             Some (c\<lparr>m_data := insert_pair (arg_k th) (arg_v th) (m_data c),
                      calls := (calls c)[t := th\<lparr>pc := At_return\<rparr>]\<rparr>)
         | At_return \<Rightarrow>
             Some (c\<lparr>m_mtx := mtx_unlock t (m_mtx c),
                      calls := (calls c)[t := th\<lparr>pc := Returned True\<rparr>]\<rparr>)
         | Returned b \<Rightarrow> None)
      else None)"

text \<open>
  A schedule is the list of the threads in the order in which they are given a turn; a
  thread that cannot move at its turn leaves the state as it is. Every interleaving of
  the statements of the threads is the run of some schedule.
\<close>

fun run :: "nat list \<Rightarrow> 'k shared_mgr \<Rightarrow> 'k shared_mgr" where
  "run [] c = c"
| "run (t # ts) c = run ts (case thread_step t c of None \<Rightarrow> c | Some c' \<Rightarrow> c')"

text \<open>
  The threads start together on the manager \<open>s\<close>, thread \<open>i\<close> calling \<open>add\<close> with the
  \<open>i\<close>-th pair of \<open>kvs\<close>, all before their first statement, the mutex free.
\<close>

definition start :: "'k base_mgr \<Rightarrow> ('k \<times> val_pt) list \<Rightarrow> 'k shared_mgr" where
  "start s kvs =
     \<lparr>m_data = m_data s, m_mtx = None,
      calls = map (\<lambda>(k, v). \<lparr>arg_k = k, arg_v = v, pc = At_lock\<rparr>) kvs\<rparr>"

text \<open>What call \<open>i\<close> has returned, if it has; and whether all calls have returned.\<close>

definition returned :: "'k shared_mgr \<Rightarrow> nat \<Rightarrow> bool option" where
  "returned c i =
     (if i < length (calls c)
      then (case pc (calls c ! i) of Returned b \<Rightarrow> Some b | _ \<Rightarrow> None)
      else None)"

fun is_returned :: "add_pc \<Rightarrow> bool" where
  "is_returned (Returned b) = True"
| "is_returned _ = False"

definition finished :: "'k shared_mgr \<Rightarrow> bool" where
  "finished c = list_all (\<lambda>th. is_returned (pc th)) (calls c)"

subsection \<open>Invariants of the runs\<close>

text \<open>
  A call is in the critical section from the lock to the return. A call has won when it
  has inserted its pair.
\<close>

fun critical :: "add_pc \<Rightarrow> bool" where
  "critical At_lock = False"
| "critical (Returned b) = False"
| "critical _ = True"

fun won :: "add_pc \<Rightarrow> bool" where
  "won At_return = True"
| "won (Returned b) = b"
| "won _ = False"

text \<open>
  What a call at a given statement knows about its key, with \<open>m0\<close> the map at the
  start and \<open>m\<close> the map now.
\<close>

fun pc_ok :: "('k \<rightharpoonup> val_pt) \<Rightarrow> ('k \<rightharpoonup> val_pt) \<Rightarrow> 'k \<Rightarrow> add_pc \<Rightarrow> bool" where
  "pc_ok m0 m k (At_test b) = (b = (m k \<noteq> None))"
| "pc_ok m0 m k At_insert = (m k = None)"
| "pc_ok m0 m k At_return = (m k \<noteq> None \<and> m0 k = None)"
| "pc_ok m0 m k (Returned b) = (m k \<noteq> None \<and> (b \<longrightarrow> m0 k = None))"
| "pc_ok m0 m k _ = True"

text \<open>The mutex is owned, once, by exactly the call that is in the critical section.\<close>

definition mutex_inv :: "'k shared_mgr \<Rightarrow> bool" where
  "mutex_inv c \<longleftrightarrow>
     (\<forall>i<length (calls c). critical (pc (calls c ! i)) \<longleftrightarrow> m_mtx c = Some (i, 1)) \<and>
     (m_mtx c = None \<or> (\<exists>t<length (calls c). m_mtx c = Some (t, 1)))"

text \<open>The calls keep their keys.\<close>

definition args_inv :: "('k \<times> val_pt) list \<Rightarrow> 'k shared_mgr \<Rightarrow> bool" where
  "args_inv kvs c \<longleftrightarrow>
     length (calls c) = length kvs \<and>
     (\<forall>i<length kvs. arg_k (calls c ! i) = fst (kvs ! i))"

text \<open>
  No entry is ever removed; every call knows what \<open>pc_ok\<close> says; no two calls with
  the same key have both won; and a key that was absent at the start and is present
  now was inserted by a call that has won.
\<close>

definition data_inv :: "('k \<rightharpoonup> val_pt) \<Rightarrow> 'k shared_mgr \<Rightarrow> bool" where
  "data_inv m0 c \<longleftrightarrow>
     (\<forall>k. m0 k \<noteq> None \<longrightarrow> m_data c k \<noteq> None) \<and>
     (\<forall>i<length (calls c). pc_ok m0 (m_data c) (arg_k (calls c ! i)) (pc (calls c ! i))) \<and>
     (\<forall>i<length (calls c). \<forall>j<length (calls c).
        arg_k (calls c ! i) = arg_k (calls c ! j) \<and> won (pc (calls c ! i)) \<and>
        won (pc (calls c ! j)) \<longrightarrow> i = j) \<and>
     (\<forall>k. m0 k = None \<and> m_data c k \<noteq> None \<longrightarrow>
        (\<exists>i<length (calls c). arg_k (calls c ! i) = k \<and> won (pc (calls c ! i))))"

text \<open>The number of statements a call has left at most, and their sum over the calls.\<close>

fun remaining :: "add_pc \<Rightarrow> nat" where
  "remaining At_lock = 5"
| "remaining At_find = 4"
| "remaining (At_test b) = 3"
| "remaining At_insert = 2"
| "remaining At_return = 1"
| "remaining (Returned b) = 0"

definition work :: "'k shared_mgr \<Rightarrow> nat" where
  "work c = sum_list (map (\<lambda>th. remaining (pc th)) (calls c))"

section \<open>Properties of \<open>add\<close>, \<open>get\<close> and \<open>del\<close>\<close>

lemma insert_pair_absent: "m k = None \<Longrightarrow> insert_pair k v m = m(k \<mapsto> v)"
  by (simp add: insert_pair_def)

lemma insert_pair_present: "m k = Some e \<Longrightarrow> insert_pair k v m = m"
  by (simp add: insert_pair_def)

lemma add_present: "m_data s k = Some e \<Longrightarrow> add k v s = (False, s)"
  by (simp add: add_def)

lemma add_absent:
  "m_data s k = None \<Longrightarrow> add k v s = (True, s\<lparr>m_data := (m_data s)(k \<mapsto> v)\<rparr>)"
  by (simp add: add_def insert_pair_def)

lemma get_m_data: "get k s = (case m_data s k of None \<Rightarrow> nullptr | Some v \<Rightarrow> v)"
  by (simp add: get_def)

lemma m_data_del: "m_data (del k s) = (m_data s)(k := None)"
  by (simp add: del_def)

lemma del_absent: "m_data s k = None \<Longrightarrow> del k s = s"
  by (simp add: del_def fun_upd_idem)

text \<open>
  Claim C2. When the key \<open>k\<close> is already present, mapped to \<open>e1\<close>, \<open>add k e2\<close>
  returns false and leaves the whole manager as it was; \<open>get k\<close> afterwards still
  returns \<open>e1\<close>.
\<close>

theorem add_collision:
  assumes "m_data s k = Some e1"
  shows "add k e2 s = (False, s) \<and> get k (snd (add k e2 s)) = e1"
  using assms by (simp add: add_present get_m_data)

theorem add_collision_witness:
  "m_data (snd (add (0::int) (ptr 1) new_base_mgr)) 0 = Some (ptr 1) \<and>
   add (0::int) (ptr 2) (snd (add 0 (ptr 1) new_base_mgr))
     = (False, snd (add 0 (ptr 1) new_base_mgr)) \<and>
   get (0::int) (snd (add 0 (ptr 2) (snd (add 0 (ptr 1) new_base_mgr)))) = ptr 1"
proof -
  have h: "m_data (snd (add (0::int) (ptr 1) new_base_mgr)) 0 = Some (ptr 1)"
    by (simp add: add_def insert_pair_def new_base_mgr_def)
  from h add_collision [OF h, of "ptr 2"] show ?thesis by blast
qed

text \<open>
  Claim C3. For two different keys \<open>k1\<close> and \<open>k2\<close>, both absent, \<open>add k1 e1\<close> and
  then \<open>add k2 e2\<close> both return true, and afterwards \<open>get k1\<close> returns \<open>e1\<close> and
  \<open>get k2\<close> returns \<open>e2\<close>.
\<close>

theorem add_two_keys:
  assumes "k1 \<noteq> k2" and "m_data s k1 = None" and "m_data s k2 = None"
  shows "fst (add k1 e1 s) = True \<and>
         fst (add k2 e2 (snd (add k1 e1 s))) = True \<and>
         get k1 (snd (add k2 e2 (snd (add k1 e1 s)))) = e1 \<and>
         get k2 (snd (add k2 e2 (snd (add k1 e1 s)))) = e2"
  using assms by (simp add: add_def insert_pair_def get_def)

theorem add_two_keys_witness:
  "(0::int) \<noteq> 1 \<and> m_data new_base_mgr (0::int) = None \<and>
   m_data new_base_mgr (1::int) = None \<and>
   fst (add (0::int) (ptr 7) new_base_mgr) = True \<and>
   fst (add (1::int) (ptr 8) (snd (add 0 (ptr 7) new_base_mgr))) = True \<and>
   get (0::int) (snd (add 1 (ptr 8) (snd (add 0 (ptr 7) new_base_mgr)))) = ptr 7 \<and>
   get (1::int) (snd (add 1 (ptr 8) (snd (add 0 (ptr 7) new_base_mgr)))) = ptr 8"
proof -
  have h1: "(0::int) \<noteq> 1" by simp
  have h2: "m_data new_base_mgr (0::int) = None" by (simp add: new_base_mgr_def)
  have h3: "m_data new_base_mgr (1::int) = None" by (simp add: new_base_mgr_def)
  from h1 h2 h3 add_two_keys [OF h1 h2 h3, of "ptr 7" "ptr 8"]
  show ?thesis by blast
qed

text \<open>
  Claim C4. From any manager, whether or not \<open>k\<close> is present, \<open>add k e\<close>, then
  \<open>del k\<close>, then \<open>get k\<close> returns the empty handle \<open>nullptr\<close>.
\<close>

theorem add_del_get: "get k (del k (snd (add k e s))) = nullptr"
  by (simp add: get_def del_def)

theorem add_del_get_witness:
  "get (5::int) (del 5 (snd (add 5 (ptr 9) new_base_mgr))) = nullptr \<and>
   get (5::int) (del 5 (snd (add 5 (ptr 9) (snd (add 5 (ptr 6) new_base_mgr))))) = nullptr"
  using add_del_get [of "5::int" "ptr 9" new_base_mgr]
    add_del_get [of "5::int" "ptr 9" "snd (add 5 (ptr 6) new_base_mgr)"]
  by blast

text \<open>
  Claim C5. \<open>del k\<close> has no failure result. When \<open>k\<close> is absent it changes
  nothing at all; when \<open>k\<close> is present it removes the entry of \<open>k\<close>; in both cases
  the entry of every other key is as before.
\<close>

theorem del_frame:
  "(m_data s k = None \<longrightarrow> del k s = s) \<and>
   m_data (del k s) k = None \<and>
   (\<forall>k'. k' \<noteq> k \<longrightarrow> m_data (del k s) k' = m_data s k' \<and> get k' (del k s) = get k' s)"
  by (simp add: del_absent m_data_del get_def)

theorem del_frame_witness:
  "m_data (snd (add (1::int) (ptr 4) new_base_mgr)) 2 = None \<and>
   del 2 (snd (add (1::int) (ptr 4) new_base_mgr)) = snd (add 1 (ptr 4) new_base_mgr) \<and>
   (1::int) \<noteq> 2 \<and>
   get 1 (del 2 (snd (add (1::int) (ptr 4) new_base_mgr))) = ptr 4 \<and>
   m_data (del 1 (snd (add (1::int) (ptr 4) new_base_mgr))) 1 = None"
proof -
  have h: "m_data (snd (add (1::int) (ptr 4) new_base_mgr)) 2 = None"
    by (simp add: add_def insert_pair_def new_base_mgr_def)
  have g: "get 1 (snd (add (1::int) (ptr 4) new_base_mgr)) = ptr 4"
    by (simp add: add_def insert_pair_def get_def new_base_mgr_def)
  have n: "(1::int) \<noteq> 2" by simp
  from h g n del_frame [of "snd (add (1::int) (ptr 4) new_base_mgr)" 2]
    del_frame [of "snd (add (1::int) (ptr 4) new_base_mgr)" 1]
  show ?thesis by metis
qed

text \<open>
  Claim C10. \<open>add\<close> does not look at the handle it stores: with \<open>k\<close> absent,
  \<open>add k nullptr\<close> returns true and records an entry for \<open>k\<close>, and \<open>get k\<close> then
  returns \<open>nullptr\<close>, which is also what \<open>get k\<close> returns while \<open>k\<close> is absent.
\<close>

theorem add_nullptr:
  assumes "m_data s k = None"
  shows "fst (add k nullptr s) = True \<and>
         m_data (snd (add k nullptr s)) k = Some nullptr \<and>
         get k (snd (add k nullptr s)) = nullptr \<and>
         get k (snd (add k nullptr s)) = get k s"
  using assms by (simp add: add_def insert_pair_def get_def)

theorem add_nullptr_witness:
  "m_data new_base_mgr (3::int) = None \<and>
   fst (add (3::int) nullptr new_base_mgr) = True \<and>
   m_data (snd (add (3::int) nullptr new_base_mgr)) 3 = Some nullptr \<and>
   get (3::int) (snd (add 3 nullptr new_base_mgr)) = nullptr \<and>
   get (3::int) (snd (add 3 nullptr new_base_mgr)) = get (3::int) new_base_mgr"
proof -
  have h: "m_data new_base_mgr (3::int) = None" by (simp add: new_base_mgr_def)
  from h add_nullptr [OF h] show ?thesis by blast
qed

section \<open>Properties of \<open>instance\<close>, \<open>new_instance\<close> and calls through handles\<close>

lemma mgr_instance_fresh:
  "fst (mgr_instance p) \<noteq> fst (mgr_instance (snd (mgr_instance p)))"
  by (simp add: mgr_instance_def)

lemma live_new_instance:
  "live (snd (new_instance ctor p)) = insert (fst (new_instance ctor p)) (live p)"
proof (rule set_eqI)
  fix u
  show "u \<in> live (snd (new_instance ctor p))
          \<longleftrightarrow> u \<in> insert (fst (new_instance ctor p)) (live p)"
    by (cases u) (auto simp: live_def new_instance_def nth_append split: if_splits)
qed

text \<open>
  Claim C1. The claim says that two calls of \<open>instance()\<close> give handles to one and
  the same manager. The code builds a new manager at every call. In a process that
  holds one \<open>base_test\<close> entity, at address \<open>0\<close>, the first call of \<open>instance()\<close>
  returns the manager at address \<open>0\<close> and the second call the manager at address
  \<open>1\<close>; \<open>add\<close> of key \<open>0\<close> with the entity through the first handle returns true
  and \<open>get\<close> of key \<open>0\<close> through the first handle returns the entity, while \<open>get\<close>
  of key \<open>0\<close> through the second handle returns \<open>nullptr\<close>.
\<close>

theorem instance_not_shared:
  "fst (new_instance base_test_ctor (process0 :: (int, base_test) process)) = ptr 0 \<and>
   fst (mgr_instance (snd (new_instance base_test_ctor
     (process0 :: (int, base_test) process)))) = 0 \<and>
   fst (mgr_instance (snd (mgr_instance (snd (new_instance base_test_ctor
     (process0 :: (int, base_test) process)))))) = 1 \<and>
   (case mgr_add 0 (0::int) (ptr 0)
           (snd (mgr_instance (snd (mgr_instance (snd (new_instance base_test_ctor
              (process0 :: (int, base_test) process))))))) of
      None \<Rightarrow> False
    | Some (b, p) \<Rightarrow>
        b = True \<and> mgr_get 0 0 p = Some (ptr 0) \<and> mgr_get 1 0 p = Some nullptr)"
  by (simp add: mgr_instance_def new_instance_def process0_def mgr_add_def mgr_get_def
      add_def insert_pair_def get_def new_base_mgr_def)

text \<open>
  Claim C6, as stated: a successful \<open>add\<close> calls \<open>add_index\<close> and the insert
  operations of the entity. It does not: a new \<open>base_test\<close> entity is registered
  under key \<open>0\<close> in a new manager, \<open>add\<close> returns true, \<open>get\<close> finds the
  entity, and no member of \<open>_bai\<close> has been called.
\<close>

theorem mgr_add_hooks_counterexample:
  "(case mgr_add 0 (0::int) (ptr 0)
      (snd (mgr_instance (snd (new_instance base_test_ctor process0)))) of
      None \<Rightarrow> False
    | Some (b, p) \<Rightarrow> b = True \<and> mgr_get 0 0 p = Some (ptr 0) \<and>
        deref p (ptr 0) = Some base_test_ctor \<and> hook_calls p = [] \<and>
        (0, Add_index) \<notin> set (hook_calls p) \<and>
        (0, Db_insert) \<notin> set (hook_calls p) \<and>
        (0, Cache_insert) \<notin> set (hook_calls p))"
  by (simp add: mgr_instance_def new_instance_def process0_def mgr_add_def mgr_get_def
      add_def insert_pair_def get_def new_base_mgr_def)

text \<open>
  Claim C6, amended. \<open>add\<close> through a manager handle only records the handle under
  the key in that manager. It returns true exactly when the key was absent, and then
  the manager maps the key to the handle and \<open>get\<close> with the same key returns it;
  when it returns false the process is as before. In both cases every other key of
  that manager and every other manager are unchanged, so \<open>get\<close> with any other
  handle or key returns what it returned before. \<open>add\<close> calls no member of \<open>_bai\<close>
  (the calls made so far are the same after as before) and it does not touch any
  entity.
\<close>

theorem mgr_add_no_hook:
  assumes "mgr_add h k v p = Some (b, p')"
  shows "hook_calls p' = hook_calls p \<and> val_objs p' = val_objs p \<and>
         h < length (mgr_objs p) \<and>
         length (mgr_objs p') = length (mgr_objs p) \<and>
         (\<forall>h'<length (mgr_objs p). h' \<noteq> h \<longrightarrow> mgr_objs p' ! h' = mgr_objs p ! h') \<and>
         (\<forall>k'. k' \<noteq> k \<longrightarrow> m_data (mgr_objs p' ! h) k' = m_data (mgr_objs p ! h) k') \<and>
         (\<forall>h' k'. (h', k') \<noteq> (h, k) \<longrightarrow> mgr_get h' k' p' = mgr_get h' k' p) \<and>
         b = (m_data (mgr_objs p ! h) k = None) \<and>
         (b \<longrightarrow> m_data (mgr_objs p' ! h) k = Some v \<and> mgr_get h k p' = Some v) \<and>
         (\<not> b \<longrightarrow> p' = p)"
proof -
  from assms have h: "h < length (mgr_objs p)"
    and b: "b = fst (add k v (mgr_objs p ! h))"
    and p': "p' = p\<lparr>mgr_objs := (mgr_objs p)[h := snd (add k v (mgr_objs p ! h))]\<rparr>"
    by (auto simp: mgr_add_def split: if_splits)
  have c1: "hook_calls p' = hook_calls p \<and> val_objs p' = val_objs p \<and>
      length (mgr_objs p') = length (mgr_objs p)"
    by (simp add: p')
  have c2: "\<forall>h'<length (mgr_objs p). h' \<noteq> h \<longrightarrow> mgr_objs p' ! h' = mgr_objs p ! h'"
    by (simp add: p')
  have c3: "\<forall>k'. k' \<noteq> k \<longrightarrow> m_data (mgr_objs p' ! h) k' = m_data (mgr_objs p ! h) k'"
    using h by (simp add: p' add_def insert_pair_def)
  have c4: "\<forall>h' k'. (h', k') \<noteq> (h, k) \<longrightarrow> mgr_get h' k' p' = mgr_get h' k' p"
    using h by (auto simp: p' mgr_get_def get_def add_def insert_pair_def nth_list_update)
  have c5: "b = (m_data (mgr_objs p ! h) k = None)"
    by (simp add: b add_def)
  have c6: "b \<longrightarrow> m_data (mgr_objs p' ! h) k = Some v \<and> mgr_get h k p' = Some v"
    using h by (simp add: b p' mgr_get_def get_def add_def insert_pair_def)
  have c7: "\<not> b \<longrightarrow> p' = p"
    using h by (simp add: b p' add_def list_update_id)
  from h c1 c2 c3 c4 c5 c6 c7 show ?thesis by blast
qed

theorem mgr_add_no_hook_witness:
  "mgr_add 0 (0::int) (ptr 0)
      (snd (mgr_instance (snd (mgr_instance (snd (new_instance base_test_ctor process0))))))
     = Some (True, \<lparr>mgr_objs = [\<lparr>m_data = [0 \<mapsto> ptr 0]\<rparr>, \<lparr>m_data = Map.empty\<rparr>],
                     val_objs = [base_test_ctor], hook_calls = []\<rparr>) \<and>
   hook_calls \<lparr>mgr_objs = [\<lparr>m_data = [(0::int) \<mapsto> ptr 0]\<rparr>, \<lparr>m_data = Map.empty\<rparr>],
               val_objs = [base_test_ctor], hook_calls = []\<rparr>
     = hook_calls (snd (mgr_instance (snd (mgr_instance (snd (new_instance base_test_ctor
         (process0 :: (int, base_test) process))))))) \<and>
   mgr_get 0 (0::int) \<lparr>mgr_objs = [\<lparr>m_data = [0 \<mapsto> ptr 0]\<rparr>, \<lparr>m_data = Map.empty\<rparr>],
                       val_objs = [base_test_ctor], hook_calls = []\<rparr>
     = Some (ptr 0) \<and>
   mgr_get 1 (0::int) \<lparr>mgr_objs = [\<lparr>m_data = [0 \<mapsto> ptr 0]\<rparr>, \<lparr>m_data = Map.empty\<rparr>],
                       val_objs = [base_test_ctor], hook_calls = []\<rparr>
     = mgr_get 1 (0::int) (snd (mgr_instance (snd (mgr_instance (snd (new_instance
         base_test_ctor (process0 :: (int, base_test) process))))))) \<and>
   mgr_get 0 (1::int) \<lparr>mgr_objs = [\<lparr>m_data = [0 \<mapsto> ptr 0]\<rparr>, \<lparr>m_data = Map.empty\<rparr>],
                       val_objs = [base_test_ctor], hook_calls = []\<rparr>
     = mgr_get 0 (1::int) (snd (mgr_instance (snd (mgr_instance (snd (new_instance
         base_test_ctor (process0 :: (int, base_test) process)))))))"
proof -
  have h: "mgr_add 0 (0::int) (ptr 0)
      (snd (mgr_instance (snd (mgr_instance (snd (new_instance base_test_ctor process0))))))
     = Some (True, \<lparr>mgr_objs = [\<lparr>m_data = [0 \<mapsto> ptr 0]\<rparr>, \<lparr>m_data = Map.empty\<rparr>],
                     val_objs = [base_test_ctor], hook_calls = []\<rparr>)"
    by (simp add: mgr_instance_def new_instance_def process0_def mgr_add_def add_def
        insert_pair_def new_base_mgr_def)
  have n1: "(1::nat, 0::int) \<noteq> (0, 0)" and n2: "(0::nat, 1::int) \<noteq> (0, 0)" by simp_all
  from h n1 n2 mgr_add_no_hook [OF h] show ?thesis by blast
qed

text \<open>
  Claim C8, as stated: the new entity is zero-initialised for every entity class. The
  entity is whatever the default constructor of the class builds: for a class whose
  member is declared \<open>int m_val {7}\<close>, \<open>new_instance\<close> returns an entity with
  \<open>m_val = 7\<close>.
\<close>

theorem new_instance_zero_counterexample:
  "fst (new_instance \<lparr>m_val = 7\<rparr> (process0 :: (int, base_test) process)) = ptr 0 \<and>
   map_option m_val
     (deref (snd (new_instance \<lparr>m_val = 7\<rparr> (process0 :: (int, base_test) process))) (ptr 0))
     = Some 7 \<and>
   map_option m_val
     (deref (snd (new_instance \<lparr>m_val = 7\<rparr> (process0 :: (int, base_test) process))) (ptr 0))
     \<noteq> Some 0"
  by (simp add: new_instance_def process0_def)

text \<open>
  Claim C8, amended. \<open>new_instance\<close>, of \<open>_base\<close> and of \<open>_base_assigned\<close> alike,
  always returns a handle that is not \<open>nullptr\<close> and that no entity had before
  (so it differs from every handle returned earlier); the entity behind it is the one
  the default constructor of the class builds, which for \<open>base_test\<close> has
  \<open>m_val = 0\<close>; every older entity is unchanged. The handle has the type
  \<open>val_pt\<close> that \<open>add\<close> stores.
\<close>

theorem new_instance_fresh:
  "fst (new_instance ctor p) \<noteq> nullptr \<and>
   fst (new_instance ctor p) \<notin> live p \<and>
   deref (snd (new_instance ctor p)) (fst (new_instance ctor p)) = Some ctor \<and>
   (\<forall>u \<in> live p. deref (snd (new_instance ctor p)) u = deref p u) \<and>
   assigned_new_instance ctor p = new_instance ctor p \<and>
   map_option m_val
     (deref (snd (new_instance base_test_ctor q)) (fst (new_instance base_test_ctor q)))
     = Some 0"
proof -
  have old: "deref (snd (new_instance ctor p)) u = deref p u" if "u \<in> live p" for u
    using that
    by (cases u) (auto simp: live_def new_instance_def nth_append split: if_splits)
  have rest: "fst (new_instance ctor p) \<noteq> nullptr \<and>
      fst (new_instance ctor p) \<notin> live p \<and>
      deref (snd (new_instance ctor p)) (fst (new_instance ctor p)) = Some ctor \<and>
      assigned_new_instance ctor p = new_instance ctor p"
    by (simp add: live_def new_instance_def assigned_new_instance_def)
  have bt: "map_option m_val
      (deref (snd (new_instance base_test_ctor q)) (fst (new_instance base_test_ctor q)))
      = Some 0"
    by (simp add: new_instance_def base_test_ctor_def)
  from old rest bt show ?thesis by blast
qed

theorem new_instance_fresh_witness:
  "ptr 0 \<in> live (snd (new_instance base_test_ctor (process0 :: (int, base_test) process))) \<and>
   fst (new_instance base_test_ctor
         (snd (new_instance base_test_ctor (process0 :: (int, base_test) process)))) \<noteq> ptr 0 \<and>
   deref (snd (new_instance base_test_ctor
         (snd (new_instance base_test_ctor (process0 :: (int, base_test) process))))) (ptr 0)
     = deref (snd (new_instance base_test_ctor (process0 :: (int, base_test) process))) (ptr 0)"
proof -
  have h: "ptr 0 \<in> live (snd (new_instance base_test_ctor (process0 :: (int, base_test) process)))"
    by (simp add: live_def new_instance_def process0_def)
  from h new_instance_fresh [of base_test_ctor
      "snd (new_instance base_test_ctor (process0 :: (int, base_test) process))"]
  show ?thesis by metis
qed

section \<open>Properties of concurrent calls of \<open>add\<close>\<close>

text \<open>
  A thread that runs its call alone, from a free mutex, does what the sequential
  \<open>add\<close> does: same map afterwards, same returned value, mutex free again.
\<close>

lemma run_alone_is_add:
  assumes "t < length (calls c)" and "pc (calls c ! t) = At_lock" and "m_mtx c = None"
  shows "m_data (run [t, t, t, t, t] c)
           = m_data (snd (add (arg_k (calls c ! t)) (arg_v (calls c ! t))
                            \<lparr>m_data = m_data c\<rparr>)) \<and>
         returned (run [t, t, t, t, t] c) t
           = Some (fst (add (arg_k (calls c ! t)) (arg_v (calls c ! t))
                          \<lparr>m_data = m_data c\<rparr>)) \<and>
         m_mtx (run [t, t, t, t, t] c) = None"
  using assms
  by (cases "m_data c (arg_k (calls c ! t))")
     (simp_all add: thread_step_def Let_def add_def returned_def insert_pair_def)

subsection \<open>The invariants hold at the start and after every statement\<close>

lemma mutex_inv_start: "mutex_inv (start s kvs)"
  by (auto simp: mutex_inv_def start_def split: prod.splits)

lemma args_inv_start: "args_inv kvs (start s kvs)"
  by (auto simp: args_inv_def start_def split: prod.splits)

lemma data_inv_start: "data_inv (m_data s) (start s kvs)"
  by (auto simp: data_inv_def start_def split: prod.splits)

lemma args_inv_step:
  "args_inv kvs c \<Longrightarrow> thread_step t c = Some c' \<Longrightarrow> args_inv kvs c'"
  by (auto simp: args_inv_def thread_step_def Let_def nth_list_update
      split: if_splits add_pc.splits option.splits)

lemma mutex_inv_step:
  assumes "mutex_inv c" and "thread_step t c = Some c'"
  shows "mutex_inv c'"
proof -
  from assms(2) have t: "t < length (calls c)"
    by (auto simp: thread_step_def split: if_splits)
  show ?thesis
  proof (cases "pc (calls c ! t)")
    case At_lock
    with assms t show ?thesis
      by (cases "m_mtx c")
         (auto simp: mutex_inv_def thread_step_def Let_def nth_list_update split: if_splits)
  next
    case At_find
    with assms t show ?thesis
      by (auto simp: mutex_inv_def thread_step_def Let_def nth_list_update split: if_splits)
  next
    case (At_test b)
    with assms t show ?thesis
      by (auto simp: mutex_inv_def thread_step_def Let_def nth_list_update split: if_splits)
  next
    case At_insert
    with assms t show ?thesis
      by (auto simp: mutex_inv_def thread_step_def Let_def nth_list_update split: if_splits)
  next
    case At_return
    with assms t show ?thesis
      by (auto simp: mutex_inv_def thread_step_def Let_def nth_list_update split: if_splits)
  next
    case (Returned b)
    with assms t show ?thesis by (simp add: thread_step_def)
  qed
qed

lemma won_pc_ok: "won p \<Longrightarrow> pc_ok m0 m k p \<Longrightarrow> m k \<noteq> None"
  by (cases p) auto

lemma data_inv_pc_update:
  assumes di: "data_inv m0 c" and t: "t < length (calls c)"
    and len: "length (calls c') = length (calls c)"
    and keys: "\<And>i. i < length (calls c) \<Longrightarrow> arg_k (calls c' ! i) = arg_k (calls c ! i)"
    and pcs: "\<And>i. i < length (calls c) \<Longrightarrow> i \<noteq> t \<Longrightarrow> pc (calls c' ! i) = pc (calls c ! i)"
    and dat: "m_data c' = m_data c"
    and w: "won (pc (calls c' ! t)) = won (pc (calls c ! t))"
    and ok: "pc_ok m0 (m_data c) (arg_k (calls c ! t)) (pc (calls c' ! t))"
  shows "data_inv m0 c'"
proof -
  have won_eq: "won (pc (calls c' ! i)) = won (pc (calls c ! i))"
    if "i < length (calls c)" for i
    using that pcs w by (cases "i = t") auto
  have ok_all: "pc_ok m0 (m_data c) (arg_k (calls c ! i)) (pc (calls c' ! i))"
    if "i < length (calls c)" for i
    using that pcs ok di by (cases "i = t") (auto simp: data_inv_def)
  from di show ?thesis
    by (simp add: data_inv_def len keys dat won_eq ok_all cong: conj_cong)
qed

lemma data_inv_insert:
  assumes mx: "mutex_inv c" and di: "data_inv m0 c" and t: "t < length (calls c)"
    and at: "pc (calls c ! t) = At_insert"
    and len: "length (calls c') = length (calls c)"
    and keys: "\<And>i. i < length (calls c) \<Longrightarrow> arg_k (calls c' ! i) = arg_k (calls c ! i)"
    and pcs: "\<And>i. i < length (calls c) \<Longrightarrow> i \<noteq> t \<Longrightarrow> pc (calls c' ! i) = pc (calls c ! i)"
    and pct: "pc (calls c' ! t) = At_return"
    and dat: "m_data c' = insert_pair (arg_k (calls c ! t)) v (m_data c)"
  shows "data_inv m0 c'"
proof -
  let ?k = "arg_k (calls c ! t)"
  from di t at have absent: "m_data c ?k = None"
    by (auto simp: data_inv_def dest!: spec [of _ t])
  with di have absent0: "m0 ?k = None"
    by (auto simp: data_inv_def)
  from absent dat have dat': "m_data c' = (m_data c)(?k \<mapsto> v)"
    by (simp add: insert_pair_def)
  from mx t at have owner: "m_mtx c = Some (t, 1)"
    by (auto simp: mutex_inv_def)
  have others: "\<not> critical (pc (calls c ! i))" if "i < length (calls c)" "i \<noteq> t" for i
    using that mx owner by (auto simp: mutex_inv_def)
  have c1: "\<forall>k. m0 k \<noteq> None \<longrightarrow> m_data c' k \<noteq> None"
    using di by (auto simp: data_inv_def dat')
  have c2: "pc_ok m0 (m_data c') (arg_k (calls c' ! i)) (pc (calls c' ! i))"
    if i: "i < length (calls c')" for i
  proof (cases "i = t")
    case True
    with t keys pct absent0 show ?thesis by (simp add: dat')
  next
    case False
    from i len have i': "i < length (calls c)" by simp
    from di i' have old: "pc_ok m0 (m_data c) (arg_k (calls c ! i)) (pc (calls c ! i))"
      by (simp add: data_inv_def)
    from others [OF i' False] old show ?thesis
      by (cases "pc (calls c ! i)") (auto simp: keys [OF i'] pcs [OF i' False] dat')
  qed
  have not_won: "\<not> won (pc (calls c ! j))"
    if j: "j < length (calls c)" and kj: "arg_k (calls c ! j) = ?k" for j
  proof
    assume "won (pc (calls c ! j))"
    moreover from di j have "pc_ok m0 (m_data c) (arg_k (calls c ! j)) (pc (calls c ! j))"
      by (simp add: data_inv_def)
    ultimately have "m_data c (arg_k (calls c ! j)) \<noteq> None" by (rule won_pc_ok)
    with kj absent show False by simp
  qed
  have c3: "i = j"
    if i: "i < length (calls c')" and j: "j < length (calls c')"
      and same: "arg_k (calls c' ! i) = arg_k (calls c' ! j)"
      and wi: "won (pc (calls c' ! i))" and wj: "won (pc (calls c' ! j))" for i j
  proof -
    from i j len have i': "i < length (calls c)" and j': "j < length (calls c)" by simp_all
    from same have same': "arg_k (calls c ! i) = arg_k (calls c ! j)"
      by (simp add: keys [OF i'] keys [OF j'])
    show ?thesis
    proof (cases "i = t")
      case it: True
      show ?thesis
      proof (cases "j = t")
        case True with it show ?thesis by simp
      next
        case False
        with wj have "won (pc (calls c ! j))" by (simp add: pcs [OF j'])
        moreover from same' it have "arg_k (calls c ! j) = ?k" by simp
        ultimately show ?thesis using not_won [OF j'] by simp
      qed
    next
      case it: False
      with wi have wi': "won (pc (calls c ! i))" by (simp add: pcs [OF i'])
      show ?thesis
      proof (cases "j = t")
        case True
        with same' have "arg_k (calls c ! i) = ?k" by simp
        with wi' not_won [OF i'] show ?thesis by simp
      next
        case False
        with wj have "won (pc (calls c ! j))" by (simp add: pcs [OF j'])
        with di i' j' same' wi' show ?thesis by (simp add: data_inv_def)
      qed
    qed
  qed
  have c4: "\<exists>i<length (calls c'). arg_k (calls c' ! i) = k \<and> won (pc (calls c' ! i))"
    if k0: "m0 k = None" and k1: "m_data c' k \<noteq> None" for k
  proof (cases "k = ?k")
    case True
    with t len keys [OF t] pct show ?thesis by (intro exI [of _ t]) simp
  next
    case False
    with k1 have "m_data c k \<noteq> None" by (simp add: dat')
    with di k0 obtain i where i: "i < length (calls c)" and ki: "arg_k (calls c ! i) = k"
      and wi: "won (pc (calls c ! i))"
      by (auto simp: data_inv_def)
    from ki False have "i \<noteq> t" by auto
    with i ki wi len show ?thesis
      by (intro exI [of _ i]) (simp add: keys [OF i] pcs [OF i])
  qed
  from c1 c2 c3 c4 show ?thesis unfolding data_inv_def by blast
qed

lemma data_inv_step:
  assumes mx: "mutex_inv c" and di: "data_inv m0 c" and st: "thread_step t c = Some c'"
  shows "data_inv m0 c'"
proof -
  from st have t: "t < length (calls c)"
    by (auto simp: thread_step_def split: if_splits)
  from di t have okt: "pc_ok m0 (m_data c) (arg_k (calls c ! t)) (pc (calls c ! t))"
    by (simp add: data_inv_def)
  show ?thesis
  proof (cases "pc (calls c ! t)")
    case At_lock
    with st t show ?thesis
      by (intro data_inv_pc_update [OF di t])
         (auto simp: thread_step_def Let_def nth_list_update split: if_splits option.splits)
  next
    case At_find
    with st t show ?thesis
      by (intro data_inv_pc_update [OF di t])
         (auto simp: thread_step_def Let_def nth_list_update split: if_splits)
  next
    case (At_test b)
    with st t okt show ?thesis
      by (intro data_inv_pc_update [OF di t])
         (auto simp: thread_step_def Let_def nth_list_update split: if_splits)
  next
    case At_insert
    with st t show ?thesis
      by (intro data_inv_insert [OF mx di t, where v = "arg_v (calls c ! t)"])
         (auto simp: thread_step_def Let_def nth_list_update split: if_splits)
  next
    case At_return
    with st t okt show ?thesis
      by (intro data_inv_pc_update [OF di t])
         (auto simp: thread_step_def Let_def nth_list_update split: if_splits)
  next
    case (Returned b)
    with st t show ?thesis by (simp add: thread_step_def)
  qed
qed

subsection \<open>Runs: what has been returned at the end, and that the end is reached\<close>

lemma run_append: "run (xs @ ys) c = run ys (run xs c)"
  by (induction xs arbitrary: c) auto

lemma inv_run:
  "mutex_inv c \<and> args_inv kvs c \<and> data_inv m0 c \<Longrightarrow>
   mutex_inv (run sched c) \<and> args_inv kvs (run sched c) \<and> data_inv m0 (run sched c)"
proof (induction sched arbitrary: c)
  case Nil
  then show ?case by simp
next
  case (Cons t sched)
  show ?case
  proof (cases "thread_step t c")
    case None
    with Cons show ?thesis by simp
  next
    case (Some c')
    with Cons.prems have "mutex_inv c' \<and> args_inv kvs c' \<and> data_inv m0 c'"
      by (blast intro: mutex_inv_step args_inv_step data_inv_step)
    then have "mutex_inv (run sched c') \<and> args_inv kvs (run sched c') \<and>
        data_inv m0 (run sched c')"
      by (rule Cons.IH)
    with Some show ?thesis by simp
  qed
qed

lemma inv_run_start:
  "mutex_inv (run sched (start s kvs)) \<and> args_inv kvs (run sched (start s kvs)) \<and>
   data_inv (m_data s) (run sched (start s kvs))"
  by (rule inv_run) (simp add: mutex_inv_start args_inv_start data_inv_start)

lemma finished_returned:
  "finished c \<Longrightarrow> i < length (calls c) \<Longrightarrow> \<exists>b. pc (calls c ! i) = Returned b"
  by (cases "pc (calls c ! i)") (auto simp: finished_def list_all_length)

lemma returned_iff:
  "returned c i = Some b \<longleftrightarrow> i < length (calls c) \<and> pc (calls c ! i) = Returned b"
  by (auto simp: returned_def split: add_pc.splits)

lemma one_winner:
  assumes di: "data_inv m0 c" and fin: "finished c"
    and i: "i < length (calls c)" and k0: "m0 (arg_k (calls c ! i)) = None"
  shows "\<exists>j<length (calls c). arg_k (calls c ! j) = arg_k (calls c ! i) \<and>
           returned c j = Some True \<and>
           (\<forall>l<length (calls c). arg_k (calls c ! l) = arg_k (calls c ! i) \<and> l \<noteq> j
              \<longrightarrow> returned c l = Some False)"
proof -
  from fin i obtain b where b: "pc (calls c ! i) = Returned b"
    by (blast dest: finished_returned)
  from di i have "pc_ok m0 (m_data c) (arg_k (calls c ! i)) (pc (calls c ! i))"
    by (simp add: data_inv_def)
  with b have "m_data c (arg_k (calls c ! i)) \<noteq> None" by simp
  with di k0 obtain j where j: "j < length (calls c)"
    and kj: "arg_k (calls c ! j) = arg_k (calls c ! i)" and wj: "won (pc (calls c ! j))"
    by (auto simp: data_inv_def)
  from fin j obtain bj where bj: "pc (calls c ! j) = Returned bj"
    by (blast dest: finished_returned)
  with wj have rj: "returned c j = Some True"
    using j by (simp add: returned_iff)
  have "returned c l = Some False"
    if l: "l < length (calls c)" and kl: "arg_k (calls c ! l) = arg_k (calls c ! i)"
      and ne: "l \<noteq> j" for l
  proof -
    from fin l obtain bl where bl: "pc (calls c ! l) = Returned bl"
      by (blast dest: finished_returned)
    have "\<not> won (pc (calls c ! l))"
    proof
      assume "won (pc (calls c ! l))"
      with di l j kl kj wj have "l = j" by (simp add: data_inv_def)
      with ne show False by simp
    qed
    with bl l show ?thesis by (simp add: returned_iff)
  qed
  with j kj rj show ?thesis by blast
qed

lemma can_step:
  assumes mx: "mutex_inv c" and nf: "\<not> finished c"
  shows "\<exists>t c'. thread_step t c = Some c'"
proof (cases "m_mtx c")
  case None
  from nf obtain i where i: "i < length (calls c)"
    and ni: "\<not> is_returned (pc (calls c ! i))"
    by (auto simp: finished_def list_all_length)
  from mx None i have "\<not> critical (pc (calls c ! i))" by (simp add: mutex_inv_def)
  with ni have "pc (calls c ! i) = At_lock" by (cases "pc (calls c ! i)") auto
  with i None have "thread_step i c \<noteq> None" by (simp add: thread_step_def)
  then show ?thesis by auto
next
  case (Some a)
  with mx obtain t where t: "t < length (calls c)" and own: "m_mtx c = Some (t, 1)"
    by (auto simp: mutex_inv_def)
  with mx have "critical (pc (calls c ! t))" by (simp add: mutex_inv_def)
  with t have "thread_step t c \<noteq> None"
    by (cases "pc (calls c ! t)") (auto simp: thread_step_def Let_def)
  then show ?thesis by auto
qed

lemma sum_list_update_less:
  fixes xs :: "nat list"
  shows "i < length xs \<Longrightarrow> y < xs ! i \<Longrightarrow> sum_list (xs[i := y]) < sum_list xs"
  by (induction xs arbitrary: i) (auto simp: nth_Cons split: nat.splits)

lemma step_work:
  assumes "thread_step t c = Some c'"
  shows "work c' < work c"
proof -
  from assms have t: "t < length (calls c)"
    by (auto simp: thread_step_def split: if_splits)
  have upd: "sum_list ((map (\<lambda>th. remaining (pc th)) (calls c))[t := n]) < work c"
    if "n < remaining (pc (calls c ! t))" for n
    unfolding work_def using t that by (intro sum_list_update_less) auto
  from assms t show ?thesis
    by (cases "pc (calls c ! t)")
       (auto simp: thread_step_def Let_def work_def [of c'] map_update
          intro!: upd split: if_splits option.splits)
qed

lemma can_finish: "mutex_inv c \<Longrightarrow> \<exists>sched. finished (run sched c)"
proof (induction "work c" arbitrary: c rule: less_induct)
  case less
  show ?case
  proof (cases "finished c")
    case True
    then have "finished (run [] c)" by simp
    then show ?thesis by blast
  next
    case False
    with less.prems obtain t c' where st: "thread_step t c = Some c'"
      by (blast dest: can_step)
    from st have "work c' < work c" by (rule step_work)
    moreover from less.prems st have "mutex_inv c'" by (rule mutex_inv_step)
    ultimately obtain sched where "finished (run sched c')"
      using less.hyps by blast
    with st have "finished (run (t # sched) c)" by simp
    then show ?thesis by blast
  qed
qed

lemma present_all_fail:
  assumes fin: "finished (run sched (start s kvs))"
    and i: "i < length kvs" and pres: "m_data s (fst (kvs ! i)) \<noteq> None"
  shows "returned (run sched (start s kvs)) i = Some False"
proof -
  let ?c = "run sched (start s kvs)"
  have ai: "args_inv kvs ?c" and di: "data_inv (m_data s) ?c"
    using inv_run_start [of sched s kvs] by simp_all
  from ai i have i': "i < length (calls ?c)" and ki: "arg_k (calls ?c ! i) = fst (kvs ! i)"
    by (simp_all add: args_inv_def)
  from fin i' obtain b where b: "pc (calls ?c ! i) = Returned b"
    by (blast dest: finished_returned)
  from di i' have "pc_ok (m_data s) (m_data ?c) (arg_k (calls ?c ! i)) (pc (calls ?c ! i))"
    by (simp add: data_inv_def)
  with b ki pres have "b = False" by auto
  with b i' show ?thesis by (simp add: returned_iff)
qed

text \<open>
  Claim C9, as stated: when N threads call \<open>add\<close> with the same key, exactly one call
  returns true. The claim does not say that the key is absent when the threads start.
  With key \<open>0\<close> already present, two threads call \<open>add\<close> with key \<open>0\<close>; both
  calls return, and both return false.
\<close>

theorem concurrent_add_present_counterexample:
  "m_data (snd (add (0::int) (ptr 9) new_base_mgr)) 0 = Some (ptr 9) \<and>
   finished (run [0, 0, 0, 1, 1, 1]
     (start (snd (add 0 (ptr 9) new_base_mgr)) [(0::int, ptr 1), (0, ptr 2)])) \<and>
   returned (run [0, 0, 0, 1, 1, 1]
     (start (snd (add 0 (ptr 9) new_base_mgr)) [(0::int, ptr 1), (0, ptr 2)])) 0 = Some False \<and>
   returned (run [0, 0, 0, 1, 1, 1]
     (start (snd (add 0 (ptr 9) new_base_mgr)) [(0::int, ptr 1), (0, ptr 2)])) 1 = Some False"
  by code_simp

text \<open>
  Claim C9, amended. Threads call \<open>add\<close> on one manager, with keys that are all
  absent when they start, and nothing else runs on the manager. Whatever the
  interleaving of their statements so far, the calls can all return (no thread is
  left waiting for ever). Once all calls have returned: if there is at least one call
  and all calls have the same key, exactly one call has returned true and every other
  call has returned false; if the keys are pairwise distinct, every call has returned
  true.
\<close>

theorem concurrent_add:
  assumes absent: "\<forall>kv \<in> set kvs. m_data s (fst kv) = None"
  shows "(\<exists>sched'. finished (run (sched @ sched') (start s kvs))) \<and>
         (finished (run sched (start s kvs)) \<longrightarrow>
            (kvs \<noteq> [] \<and> (\<forall>kv \<in> set kvs. fst kv = k) \<longrightarrow>
               (\<exists>i<length kvs. returned (run sched (start s kvs)) i = Some True \<and>
                  (\<forall>j<length kvs. j \<noteq> i \<longrightarrow>
                     returned (run sched (start s kvs)) j = Some False))) \<and>
            (distinct (map fst kvs) \<longrightarrow>
               (\<forall>i<length kvs. returned (run sched (start s kvs)) i = Some True)))"
proof -
  let ?c = "run sched (start s kvs)"
  have mx: "mutex_inv ?c" and ai: "args_inv kvs ?c" and di: "data_inv (m_data s) ?c"
    using inv_run_start [of sched s kvs] by simp_all
  from ai have len: "length (calls ?c) = length kvs"
    and keys: "\<And>i. i < length kvs \<Longrightarrow> arg_k (calls ?c ! i) = fst (kvs ! i)"
    by (simp_all add: args_inv_def)
  from absent have abs: "m_data s (arg_k (calls ?c ! i)) = None" if "i < length kvs" for i
    using that by (simp add: keys)
  from can_finish [OF mx] obtain sched' where "finished (run sched' ?c)" ..
  then have progress: "\<exists>sched'. finished (run (sched @ sched') (start s kvs))"
    by (auto simp: run_append)
  have same: "\<exists>i<length kvs. returned ?c i = Some True \<and>
      (\<forall>j<length kvs. j \<noteq> i \<longrightarrow> returned ?c j = Some False)"
    if fin: "finished ?c" and ne: "kvs \<noteq> []" and all: "\<forall>kv \<in> set kvs. fst kv = k"
  proof -
    from ne have z: "0 < length kvs" by simp
    from all have allk: "arg_k (calls ?c ! i) = k" if "i < length kvs" for i
      using that by (simp add: keys)
    from one_winner [OF di fin, of 0] z abs [OF z] len
    obtain j where j: "j < length kvs" and rj: "returned ?c j = Some True"
      and rest: "\<forall>l<length kvs. arg_k (calls ?c ! l) = arg_k (calls ?c ! 0) \<and> l \<noteq> j
                    \<longrightarrow> returned ?c l = Some False"
      by auto
    from rest z have "\<forall>l<length kvs. l \<noteq> j \<longrightarrow> returned ?c l = Some False"
      by (simp add: allk)
    with j rj show ?thesis by blast
  qed
  have dist: "returned ?c i = Some True"
    if fin: "finished ?c" and d: "distinct (map fst kvs)" and i: "i < length kvs" for i
  proof -
    from one_winner [OF di fin, of i] i abs [OF i] len
    obtain j where j: "j < length kvs" and kj: "arg_k (calls ?c ! j) = arg_k (calls ?c ! i)"
      and rj: "returned ?c j = Some True"
      by auto
    from kj i j have "map fst kvs ! j = map fst kvs ! i" by (simp add: keys)
    moreover from d i j have "(map fst kvs ! j = map fst kvs ! i) = (j = i)"
      by (intro nth_eq_iff_index_eq) simp_all
    ultimately have "j = i" by blast
    with rj show ?thesis by simp
  qed
  from progress same dist show ?thesis by blast
qed

theorem concurrent_add_witness:
  "m_data new_base_mgr (0::int) = None \<and>
   finished (run [0, 1, 0, 1, 0, 1, 0, 1, 0, 1, 1, 1]
     (start new_base_mgr [(0::int, ptr 1), (0, ptr 2)])) \<and>
   returned (run [0, 1, 0, 1, 0, 1, 0, 1, 0, 1, 1, 1]
     (start new_base_mgr [(0::int, ptr 1), (0, ptr 2)])) 0 = Some True \<and>
   returned (run [0, 1, 0, 1, 0, 1, 0, 1, 0, 1, 1, 1]
     (start new_base_mgr [(0::int, ptr 1), (0, ptr 2)])) 1 = Some False \<and>
   m_data new_base_mgr (3::int) = None \<and> m_data new_base_mgr (4::int) = None \<and>
   finished (run [1, 0, 1, 0, 1, 0, 1, 0, 1, 0, 0, 0, 0, 0]
     (start new_base_mgr [(3::int, ptr 1), (4, ptr 2)])) \<and>
   returned (run [1, 0, 1, 0, 1, 0, 1, 0, 1, 0, 0, 0, 0, 0]
     (start new_base_mgr [(3::int, ptr 1), (4, ptr 2)])) 0 = Some True \<and>
   returned (run [1, 0, 1, 0, 1, 0, 1, 0, 1, 0, 0, 0, 0, 0]
     (start new_base_mgr [(3::int, ptr 1), (4, ptr 2)])) 1 = Some True"
proof -
  let ?C = "run [0, 1, 0, 1, 0, 1, 0, 1, 0, 1, 1, 1]
     (start new_base_mgr [(0::int, ptr 1), (0, ptr 2)])"
  let ?D = "run [1, 0, 1, 0, 1, 0, 1, 0, 1, 0, 0, 0, 0, 0]
     (start new_base_mgr [(3::int, ptr 1), (4, ptr 2)])"
  have m0: "m_data new_base_mgr (0::int) = None"
    and m3: "m_data new_base_mgr (3::int) = None"
    and m4: "m_data new_base_mgr (4::int) = None"
    by (simp_all add: new_base_mgr_def)
  from m0 have a1: "\<forall>kv \<in> set [(0::int, ptr 1), (0, ptr 2)]. m_data new_base_mgr (fst kv) = None"
    by simp
  have f1: "finished ?C"
    by code_simp
  have n1: "[(0::int, ptr 1), (0, ptr 2)] \<noteq> [] \<and>
      (\<forall>kv \<in> set [(0::int, ptr 1), (0, ptr 2)]. fst kv = 0)"
    by simp
  have r1: "returned ?C 1 = Some False"
    by code_simp
  from concurrent_add [OF a1, of "[0, 1, 0, 1, 0, 1, 0, 1, 0, 1, 1, 1]" 0] f1 n1
  obtain i where i: "i < length [(0::int, ptr 1), (0, ptr 2)]" and ri: "returned ?C i = Some True"
    by blast
  from ri r1 have "i \<noteq> 1" by auto
  with i have "i = 0" by simp
  with ri have r0: "returned ?C 0 = Some True" by simp
  from m3 m4 have a2: "\<forall>kv \<in> set [(3::int, ptr 1), (4, ptr 2)]. m_data new_base_mgr (fst kv) = None"
    by simp
  have d2: "distinct (map fst [(3::int, ptr 1), (4, ptr 2)])"
    by simp
  have f2: "finished ?D"
    by code_simp
  from concurrent_add [OF a2, of "[1, 0, 1, 0, 1, 0, 1, 0, 1, 0, 0, 0, 0, 0]"] f2 d2
  have "\<forall>i<length [(3::int, ptr 1), (4, ptr 2)]. returned ?D i = Some True"
    by blast
  then have s0: "returned ?D 0 = Some True" and s1: "returned ?D 1 = Some True"
    by simp_all
  from m0 f1 r0 r1 m3 m4 f2 s0 s1 show ?thesis by blast
qed

end
